theory Spec2Isabelle
  imports Main
begin

section \<open>Python values\<close>

text \<open>
  A Python \<open>str\<close> is a sequence of Unicode code points, so it is modelled as a list of
  natural numbers (one per code point) rather than as a byte string: the CJK test and
  \<open>str.strip\<close> both look at code points.
\<close>

type_synonym pystr = "nat list"

definition ustr :: "string \<Rightarrow> pystr" where
  "ustr s = map of_char s"

text \<open>
  The values a tag blob or a JSON document can hold. A float is kept only up to its truth
  value (\<open>PFloat True\<close> is a nonzero float or NaN), which is all this program observes of it.
  A \<open>dict\<close> is an association list with the first binding of a key the one that counts.
\<close>

datatype pyval =
    PNone
  | PBool bool
  | PInt int
  | PFloat bool
  | PStr pystr
  | PList "pyval list"
  | PDict "(pystr \<times> pyval) list"

datatype exn =
    SystemExit int
  | KeyboardInterrupt
  | JSONDecodeError
  | ValueError
  | RecursionError
  | AttributeError
  | KeyError
  | OtherException nat

text \<open>\<open>except Exception\<close> catches everything but the \<open>BaseException\<close>-only classes.\<close>

fun is_Exception :: "exn \<Rightarrow> bool" where
  "is_Exception (SystemExit _) = False"
| "is_Exception KeyboardInterrupt = False"
| "is_Exception _ = True"

text \<open>\<open>except (json.JSONDecodeError, ValueError)\<close>.\<close>

fun is_ValueError :: "exn \<Rightarrow> bool" where
  "is_ValueError JSONDecodeError = True"
| "is_ValueError ValueError = True"
| "is_ValueError _ = False"

fun truthy :: "pyval \<Rightarrow> bool" where
  "truthy PNone = False"
| "truthy (PBool b) = b"
| "truthy (PInt i) = (i \<noteq> 0)"
| "truthy (PFloat nz) = nz"
| "truthy (PStr s) = (s \<noteq> [])"
| "truthy (PList xs) = (xs \<noteq> [])"
| "truthy (PDict kvs) = (kvs \<noteq> [])"

text \<open>Python's \<open>a or b\<close>.\<close>

definition py_or :: "pyval \<Rightarrow> pyval \<Rightarrow> pyval" where
  "py_or a b = (if truthy a then a else b)"

text \<open>
  The code points \<open>str.isspace\<close> accepts (CPython's whitespace table); \<open>str.strip()\<close>
  without arguments removes them from both ends.
\<close>

definition is_space :: "nat \<Rightarrow> bool" where
  "is_space c \<longleftrightarrow>
     (9 \<le> c \<and> c \<le> 13) \<or> (28 \<le> c \<and> c \<le> 32) \<or> c = 133 \<or> c = 160 \<or> c = 5760 \<or>
     (8192 \<le> c \<and> c \<le> 8202) \<or> c = 8232 \<or> c = 8233 \<or> c = 8239 \<or> c = 8287 \<or> c = 12288"

definition strip :: "pystr \<Rightarrow> pystr" where
  "strip s = rev (dropWhile is_space (rev (dropWhile is_space s)))"

text \<open>\<open>x.strip()\<close> on an arbitrary value: only a \<open>str\<close> has the method.\<close>

fun py_strip :: "pyval \<Rightarrow> exn + pystr" where
  "py_strip (PStr s) = Inr (strip s)"
| "py_strip _ = Inl AttributeError"

text \<open>\<open>tags.get(key)\<close>: only a \<open>dict\<close> has the method; a missing key gives \<open>None\<close>.\<close>

fun dict_get :: "pyval \<Rightarrow> pystr \<Rightarrow> exn + pyval" where
  "dict_get (PDict kvs) k = Inr (case map_of kvs k of None \<Rightarrow> PNone | Some v \<Rightarrow> v)"
| "dict_get _ k = Inl AttributeError"

section \<open>Chinese character detection\<close>

text \<open>\<open>_CJK_RE\<close>: the ranges U+4E00..U+9FFF (CJK Unified Ideographs) and U+3400..U+4DBF (Extension A).\<close>

definition is_cjk :: "nat \<Rightarrow> bool" where
  "is_cjk c \<longleftrightarrow> (0x4e00 \<le> c \<and> c \<le> 0x9fff) \<or> (0x3400 \<le> c \<and> c \<le> 0x4dbf)"

definition has_chinese :: "pystr option \<Rightarrow> bool" where
  "has_chinese text = list_ex is_cjk (case text of None \<Rightarrow> [] | Some s \<Rightarrow> s)"

section \<open>Extracting fields from a row's tags\<close>

text \<open>
  \<open>json.loads\<close> is a library function and is a parameter of the model: it either raises
  or returns the decoded value.
\<close>

definition parse_tags :: "(pystr \<Rightarrow> exn + pyval) \<Rightarrow> pyval \<Rightarrow> exn + pyval" where
  "parse_tags loads raw =
     (case raw of
        PDict d \<Rightarrow> Inr raw
      | PStr s \<Rightarrow>
          (case loads s of
             Inr v \<Rightarrow> Inr v
           | Inl e \<Rightarrow> if is_ValueError e then Inr (PDict []) else Inl e)
      | _ \<Rightarrow> Inr (PDict []))"

definition get_title_en :: "pyval \<Rightarrow> pystr \<Rightarrow> exn + pystr" where
  "get_title_en tags name =
     (case dict_get tags (ustr ''name:en'') of
        Inl e \<Rightarrow> Inl e
      | Inr v \<Rightarrow> py_strip (py_or (py_or v (PStr name)) (PStr [])))"

definition zh_keys :: "pystr list" where
  "zh_keys = map ustr [''name:zh'', ''name:zh-Hans'', ''name:zh-Hant'',
                       ''name:zh-CN'', ''name:zh-TW'', ''name:zh-SG'']"

text \<open>The \<open>for key in (...)\<close> loop of \<open>get_title_zh\<close>; \<open>None\<close> when it falls through.\<close>

fun get_title_zh_loop :: "pyval \<Rightarrow> pystr list \<Rightarrow> exn + pystr option" where
  "get_title_zh_loop tags [] = Inr None"
| "get_title_zh_loop tags (key # keys) =
     (case dict_get tags key of
        Inl e \<Rightarrow> Inl e
      | Inr v \<Rightarrow>
          (case py_strip (py_or v (PStr [])) of
             Inl e \<Rightarrow> Inl e
           | Inr val \<Rightarrow> if val \<noteq> [] then Inr (Some val) else get_title_zh_loop tags keys))"

definition get_title_zh :: "pyval \<Rightarrow> pystr \<Rightarrow> exn + pystr option" where
  "get_title_zh tags name =
     (case get_title_zh_loop tags zh_keys of
        Inl e \<Rightarrow> Inl e
      | Inr (Some val) \<Rightarrow> Inr (Some val)
      | Inr None \<Rightarrow> if has_chinese (Some name) then Inr (Some (strip name)) else Inr None)"

section \<open>The name resolver as the specification words it\<close>

text \<open>
  A tag mapping in the sense of the data model: every value is a string.
\<close>

definition str_valued :: "(pystr \<times> pyval) list \<Rightarrow> bool" where
  "str_valued d = list_all (\<lambda>kv. case snd kv of PStr s \<Rightarrow> True | _ \<Rightarrow> False) d"

text \<open>The string stored under a key, empty when the key is absent.\<close>

definition tag_value :: "(pystr \<times> pyval) list \<Rightarrow> pystr \<Rightarrow> pystr" where
  "tag_value d k = (case map_of d k of Some (PStr s) \<Rightarrow> s | _ \<Rightarrow> [])"

text \<open>
  English label, from the specification: the \<open>name:en\<close> value if non-empty, otherwise the
  raw name if non-empty, otherwise the empty string; trimmed.
\<close>

definition title_en_spec :: "(pystr \<times> pyval) list \<Rightarrow> pystr \<Rightarrow> pystr" where
  "title_en_spec d name =
     strip (if tag_value d (ustr ''name:en'') \<noteq> [] then tag_value d (ustr ''name:en'')
            else if name \<noteq> [] then name else [])"

text \<open>A string with no whitespace at either end.\<close>

definition trimmed :: "pystr \<Rightarrow> bool" where
  "trimmed s = (s = [] \<or> (\<not> is_space (hd s) \<and> \<not> is_space (last s)))"

text \<open>A string of whitespace only (the empty string among them).\<close>

definition blank :: "pystr \<Rightarrow> bool" where
  "blank s = list_all is_space s"

text \<open>\<open>r\<close> is \<open>s\<close> without the whitespace around it.\<close>

definition trim_of :: "pystr \<Rightarrow> pystr \<Rightarrow> bool" where
  "trim_of r s \<longleftrightarrow> trimmed r \<and> (\<exists>pre suf. s = pre @ r @ suf \<and> blank pre \<and> blank suf)"

text \<open>
  Chinese label candidate, from the specification: the first non-empty trimmed value among
  the six keys, generic, Simplified, Traditional, Mainland, Taiwan, Singapore, in that
  order; failing that the trimmed raw name when it holds a code point of the CJK Unified
  Ideographs (U+4E00..U+9FFF) or of Extension A (U+3400..U+4DBF); failing that nothing.
\<close>

definition title_zh_spec :: "(pystr \<times> pyval) list \<Rightarrow> pystr \<Rightarrow> pystr option" where
  "title_zh_spec d name =
     (case List.find (\<lambda>v. v \<noteq> [])
             (map (\<lambda>k. strip (tag_value d k))
                [ustr ''name:zh'', ustr ''name:zh-Hans'', ustr ''name:zh-Hant'',
                 ustr ''name:zh-CN'', ustr ''name:zh-TW'', ustr ''name:zh-SG'']) of
        Some v \<Rightarrow> Some v
      | None \<Rightarrow>
          if list_ex (\<lambda>c. (0x4E00 \<le> c \<and> c \<le> 0x9FFF) \<or> (0x3400 \<le> c \<and> c \<le> 0x4DBF)) name
          then Some (strip name) else None)"

section \<open>Tables of features\<close>

text \<open>
  A \<open>GeoDataFrame\<close>: the column labels, and one row per feature. A row holds its attribute
  values by column label and, apart from them, the value of the geometry column (an
  opaque \<open>'g\<close>); the label of the geometry column stands in \<open>columns\<close> like any other.
  The column labels decide which attributes a table has; a label with no value in a row
  reads as a missing value, \<open>None\<close>.
\<close>

record 'g row =
  props :: "pystr \<rightharpoonup> pyval"
  geometry :: 'g

record 'g gdf =
  columns :: "pystr list"
  rows :: "'g row list"

definition cell :: "'g row \<Rightarrow> pystr \<Rightarrow> pyval" where
  "cell r c = (case props r c of None \<Rightarrow> PNone | Some v \<Rightarrow> v)"

text \<open>\<open>row.get(c)\<close> on a row of \<open>gdf.iterrows()\<close>: \<open>None\<close> when there is no such column.\<close>

definition row_get :: "'g gdf \<Rightarrow> 'g row \<Rightarrow> pystr \<Rightarrow> pyval" where
  "row_get g r c = (if c \<in> set (columns g) then cell r c else PNone)"

text \<open>
  \<open>gdf[c] = values\<close>: the column is replaced, or appended when new. The program only
  assigns lists it has built with one entry per row.
\<close>

definition set_column :: "pystr \<Rightarrow> pyval list \<Rightarrow> 'g gdf \<Rightarrow> 'g gdf" where
  "set_column c vs g =
     \<lparr> columns = (if c \<in> set (columns g) then columns g else columns g @ [c]),
       rows = map (\<lambda>(r, v). r\<lparr>props := (props r)(c \<mapsto> v)\<rparr>) (zip (rows g) vs) \<rparr>"

text \<open>
  \<open>gdf[[c1, ..., cn]]\<close>: a \<open>KeyError\<close> when a label is not a column; otherwise the table
  of those columns only. The geometry stays with its row: the one selection the program
  makes names the geometry column.
\<close>

definition select_columns :: "pystr list \<Rightarrow> 'g gdf \<Rightarrow> exn + 'g gdf" where
  "select_columns cs g =
     (if set cs \<subseteq> set (columns g)
      then Inr \<lparr> columns = cs, rows = map (\<lambda>r. r\<lparr>props := props r |` set cs\<rparr>) (rows g) \<rparr>
      else Inl KeyError)"

section \<open>The world the program runs in\<close>

datatype call = Batch "pystr list" | Single pystr

datatype dir = OutputDir | YearDir int

datatype msg =
    MsgAllFound
  | MsgTranslating nat
  | MsgBatchFailed exn
  | MsgCouldNot pystr exn
  | MsgComplete
  | MsgNotFound int
  | MsgFeatures int nat
  | MsgRangeError int int
  | MsgPhase1 nat
  | MsgPhase2
  | MsgPhase3
  | MsgDone nat nat

text \<open>
  What the program is given and cannot change: the yearly source files
  (\<open>files y = None\<close> when \<open>countries_y.geojson\<close> does not exist; otherwise the table
  \<open>gpd.read_file\<close> returns, or the exception it raises on a file it cannot read), the
  shapefile writer (\<open>write_error y out\<close> is the exception \<open>out.to_file\<close> raises for
  that table, if any), the library functions \<open>json.loads\<close> and \<open>str\<close> (the latter only
  on values that are not strings), and the translation service. A reply of the service may
  depend on the calls made to it so far; it is a translation, \<open>None\<close>, or an exception.
\<close>

record 'g env =
  files :: "int \<Rightarrow> (exn + 'g gdf) option"
  write_error :: "int \<Rightarrow> 'g gdf \<Rightarrow> exn option"
  json_loads :: "pystr \<Rightarrow> exn + pyval"
  py_repr :: "pyval \<Rightarrow> pystr"
  translate_batch :: "call list \<Rightarrow> pystr list \<Rightarrow> exn + pystr option list"
  translate :: "call list \<Rightarrow> pystr \<Rightarrow> exn + pystr option"

text \<open>
  What the program changes: the module-level \<open>_cache\<close>, the calls made to the
  translation service, the source files read, the directories made, the shapefiles
  written (by year) and the lines printed. \<open>time.sleep\<close> is left out. A write that
  raises leaves the shapefile of that year in an unknown state, \<open>Partial\<close>.
\<close>

datatype 'g shapefile = Written "'g gdf" | Partial

record 'g world =
  cache :: "pystr \<rightharpoonup> pystr"
  calls :: "call list"
  reads :: "int list"
  dirs :: "dir list"
  shp :: "int \<rightharpoonup> 'g shapefile"
  stdout :: "msg list"


definition print :: "msg \<Rightarrow> 'g world \<Rightarrow> 'g world" where
  "print m w = w\<lparr>stdout := stdout w @ [m]\<rparr>"

text \<open>A call to the translation service is logged with its argument.\<close>

definition log_call :: "call \<Rightarrow> 'g world \<Rightarrow> 'g world" where
  "log_call c w = w\<lparr>calls := calls w @ [c]\<rparr>"

text \<open>\<open>_cache[k] = v\<close>\<close>

definition cache_put :: "pystr \<Rightarrow> pystr \<Rightarrow> 'g world \<Rightarrow> 'g world" where
  "cache_put k v w = w\<lparr>cache := (cache w)(k \<mapsto> v)\<rparr>"

text \<open>\<open>dst_dir.mkdir(parents=True, exist_ok=True)\<close>, \<open>gpd.read_file(src)\<close>, \<open>out.to_file(dst, ...)\<close>\<close>

definition mkdir :: "dir \<Rightarrow> 'g world \<Rightarrow> 'g world" where
  "mkdir d w = w\<lparr>dirs := dirs w @ [d]\<rparr>"

definition read_file :: "int \<Rightarrow> 'g world \<Rightarrow> 'g world" where
  "read_file year w = w\<lparr>reads := reads w @ [year]\<rparr>"

definition to_file :: "int \<Rightarrow> 'g shapefile \<Rightarrow> 'g world \<Rightarrow> 'g world" where
  "to_file year out w = w\<lparr>shp := (shp w)(year \<mapsto> out)\<rparr>"

text \<open>\<open>str(v)\<close>\<close>

definition py_str :: "'g env \<Rightarrow> pyval \<Rightarrow> pystr" where
  "py_str env v = (case v of PStr s \<Rightarrow> s | _ \<Rightarrow> py_repr env v)"

text \<open>\<open>str(row.get("name") or "")\<close>\<close>

definition row_name :: "'g env \<Rightarrow> 'g gdf \<Rightarrow> 'g row \<Rightarrow> pystr" where
  "row_name env g r = py_str env (py_or (row_get g r (ustr ''name'')) (PStr []))"

section \<open>Translation, batched, with the cross-year cache\<close>

text \<open>\<open>list(dict.fromkeys(xs))\<close>: the distinct elements in order of first occurrence.\<close>

fun fromkeys :: "'a list \<Rightarrow> 'a list \<Rightarrow> 'a list" where
  "fromkeys seen [] = seen"
| "fromkeys seen (x # xs) = fromkeys (if x \<in> set seen then seen else seen @ [x]) xs"

definition BATCH :: nat where
  "BATCH = 50"

text \<open>\<open>tgt or src\<close>\<close>

definition tgt_or :: "pystr option \<Rightarrow> pystr \<Rightarrow> pystr" where
  "tgt_or tgt src = (case tgt of None \<Rightarrow> src | Some t \<Rightarrow> if t \<noteq> [] then t else src)"

text \<open>\<open>for src, tgt in zip(chunk, results): _cache[src] = tgt or src\<close>\<close>

fun store_batch :: "(pystr \<times> pystr option) list \<Rightarrow> 'g world \<Rightarrow> 'g world" where
  "store_batch [] w = w"
| "store_batch ((src, tgt) # rest) w =
     store_batch rest (cache_put src (tgt_or tgt src) w)"

text \<open>The one-by-one retry, \<open>for src in chunk\<close>, inside the handler of a failed batch.\<close>

fun translate_each :: "'g env \<Rightarrow> pystr list \<Rightarrow> 'g world \<Rightarrow> (exn + unit) \<times> 'g world" where
  "translate_each env [] w = (Inr (), w)"
| "translate_each env (src # rest) w =
     (let reply = translate env (calls w) src;
          w1 = log_call (Single src) w
      in case reply of
           Inr r \<Rightarrow> translate_each env rest (cache_put src (tgt_or r src) w1)
         | Inl e2 \<Rightarrow>
             if is_Exception e2
             then translate_each env rest (cache_put src src (print (MsgCouldNot src e2) w1))
             else (Inl e2, w1))"

text \<open>\<open>for i in range(0, len(unique), BATCH)\<close>\<close>

function prime_loop :: "'g env \<Rightarrow> pystr list \<Rightarrow> nat \<Rightarrow> 'g world \<Rightarrow> (exn + unit) \<times> 'g world" where
  "prime_loop env unique i w =
     (if i < length unique then
        (let chunk = take BATCH (drop i unique);
             reply = translate_batch env (calls w) chunk;
             w1 = log_call (Batch chunk) w
         in case reply of
              Inr results \<Rightarrow> prime_loop env unique (i + BATCH) (store_batch (zip chunk results) w1)
            | Inl exc \<Rightarrow>
                if is_Exception exc
                then (case translate_each env chunk (print (MsgBatchFailed exc) w1) of
                        (Inl e, w2) \<Rightarrow> (Inl e, w2)
                      | (Inr u, w2) \<Rightarrow> prime_loop env unique (i + BATCH) w2)
                else (Inl exc, w1))
      else (Inr (), w))"
  by pat_completeness auto
termination
  by (relation "measure (\<lambda>(env, unique, i, w). length unique - i)") (auto simp: BATCH_def)

declare prime_loop.simps [simp del]

definition prime_translation_cache ::
  "'g env \<Rightarrow> pystr list \<Rightarrow> 'g world \<Rightarrow> (exn + unit) \<times> 'g world" where
  "prime_translation_cache env names w =
     (let unique = fromkeys [] (filter (\<lambda>n. n \<noteq> [] \<and> cache w n = None) names)
      in if unique = [] then (Inr (), print MsgAllFound w)
         else (case prime_loop env unique 0 (print (MsgTranslating (length unique)) w) of
                 (Inl e, w2) \<Rightarrow> (Inl e, w2)
               | (Inr u, w2) \<Rightarrow> (Inr (), print MsgComplete w2)))"

section \<open>Per-year shapefile generation\<close>

text \<open>A list comprehension whose body may raise: the first exception ends it.\<close>

fun map_exn :: "('a \<Rightarrow> exn + 'b) \<Rightarrow> 'a list \<Rightarrow> exn + 'b list" where
  "map_exn f [] = Inr []"
| "map_exn f (x # xs) =
     (case f x of
        Inl e \<Rightarrow> Inl e
      | Inr y \<Rightarrow> (case map_exn f xs of Inl e \<Rightarrow> Inl e | Inr ys \<Rightarrow> Inr (y # ys)))"

text \<open>The truth value of what \<open>get_title_zh\<close> returns.\<close>

definition zh_truthy :: "pystr option \<Rightarrow> bool" where
  "zh_truthy zh = (case zh of None \<Rightarrow> False | Some s \<Rightarrow> s \<noteq> [])"

definition tags_series :: "'g env \<Rightarrow> 'g gdf \<Rightarrow> exn + pyval list" where
  "tags_series env g =
     (if ustr ''tags'' \<in> set (columns g)
      then map_exn (\<lambda>r. parse_tags (json_loads env) (cell r (ustr ''tags''))) (rows g)
      else Inr (replicate (length (rows g)) (PDict [])))"

text \<open>
  \<open>_cache.get(en, en)\<close> with \<open>en = row["title_en"]\<close>; that column holds strings, for a
  value of another type (never a key of the cache) the default comes back.
\<close>

definition cache_get :: "(pystr \<rightharpoonup> pystr) \<Rightarrow> pyval \<Rightarrow> pyval" where
  "cache_get c en =
     (case en of
        PStr s \<Rightarrow> (case c s of None \<Rightarrow> en | Some t \<Rightarrow> PStr t)
      | _ \<Rightarrow> en)"

definition title_of :: "'g env \<Rightarrow> (pystr \<rightharpoonup> pystr) \<Rightarrow> 'g gdf \<Rightarrow> pyval \<times> 'g row \<Rightarrow> exn + pyval" where
  "title_of env c g tr =
     (case get_title_zh (fst tr) (row_name env g (snd tr)) of
        Inl e \<Rightarrow> Inl e
      | Inr zh \<Rightarrow>
          if zh_truthy zh then Inr (PStr (case zh of None \<Rightarrow> [] | Some s \<Rightarrow> s))
          else Inr (cache_get c (cell (snd tr) (ustr ''title_en''))))"

definition out_columns :: "pystr list" where
  "out_columns = map ustr [''oid'', ''title'', ''title_en'', ''geometry'']"

definition process_year :: "'g env \<Rightarrow> int \<Rightarrow> 'g world \<Rightarrow> (exn + bool) \<times> 'g world" where
  "process_year env year w =
     (case files env year of
        None \<Rightarrow> (Inr False, print (MsgNotFound year) w)
      | Some src \<Rightarrow>
          (let w1 = read_file year (mkdir (YearDir year) w)
           in case src of
                Inl e \<Rightarrow> (Inl e, w1)
              | Inr g0 \<Rightarrow>
           (case tags_series env g0 of
                Inl e \<Rightarrow> (Inl e, w1)
              | Inr tss \<Rightarrow>
                  (case map_exn (\<lambda>tr. get_title_en (fst tr) (row_name env g0 (snd tr)))
                          (zip tss (rows g0)) of
                     Inl e \<Rightarrow> (Inl e, w1)
                   | Inr ens \<Rightarrow>
                       (let g1 = set_column (ustr ''title_en'') (map PStr ens) g0
                        in case map_exn (title_of env (cache w1) g1) (zip tss (rows g1)) of
                             Inl e \<Rightarrow> (Inl e, w1)
                           | Inr titles \<Rightarrow>
                               (let g2 = set_column (ustr ''title'') titles g1;
                                    g3 = set_column (ustr ''oid'')
                                           (map (\<lambda>i. PInt (int i + 1)) [0..<length (rows g2)]) g2
                                in case select_columns out_columns g3 of
                                     Inl e \<Rightarrow> (Inl e, w1)
                                   | Inr out \<Rightarrow>
                                       (case write_error env year out of
                                          Some e \<Rightarrow> (Inl e, to_file year Partial w1)
                                        | None \<Rightarrow>
                                            (Inr True,
                                             print (MsgFeatures year (length (rows out)))
                                               (to_file year (Written out) w1)))))))))"

section \<open>Main\<close>

text \<open>\<open>parse_tags(row.get("tags"))\<close>\<close>

definition row_tags :: "'g env \<Rightarrow> 'g gdf \<Rightarrow> 'g row \<Rightarrow> exn + pyval" where
  "row_tags env g r = parse_tags (json_loads env) (row_get g r (ustr ''tags''))"

text \<open>Phase 1, the loop over the rows of one file.\<close>

fun discover_rows :: "'g env \<Rightarrow> 'g gdf \<Rightarrow> 'g row list \<Rightarrow> pystr list \<Rightarrow> exn + pystr list" where
  "discover_rows env g [] needs = Inr needs"
| "discover_rows env g (r # rs) needs =
     (case row_tags env g r of
        Inl e \<Rightarrow> Inl e
      | Inr tags \<Rightarrow>
          (case get_title_zh tags (row_name env g r) of
             Inl e \<Rightarrow> Inl e
           | Inr zh \<Rightarrow>
               if \<not> zh_truthy zh
               then (case get_title_en tags (row_name env g r) of
                       Inl e \<Rightarrow> Inl e
                     | Inr en \<Rightarrow> discover_rows env g rs (if en \<noteq> [] then needs @ [en] else needs))
               else discover_rows env g rs needs))"

text \<open>Phase 1, the loop over the years.\<close>

fun discover_years ::
  "'g env \<Rightarrow> int list \<Rightarrow> pystr list \<Rightarrow> 'g world \<Rightarrow> (exn + pystr list) \<times> 'g world" where
  "discover_years env [] needs w = (Inr needs, w)"
| "discover_years env (year # years) needs w =
     (case files env year of
        None \<Rightarrow> discover_years env years needs w
      | Some src \<Rightarrow>
          (let w1 = read_file year w
           in case src of
                Inl e \<Rightarrow> (Inl e, w1)
              | Inr g \<Rightarrow>
                  (case discover_rows env g (rows g) needs of
                     Inl e \<Rightarrow> (Inl e, w1)
                   | Inr needs' \<Rightarrow> discover_years env years needs' w1)))"

text \<open>Phase 3, \<open>sum(process_year(y) for y in years)\<close>.\<close>

fun process_years :: "'g env \<Rightarrow> int list \<Rightarrow> nat \<Rightarrow> 'g world \<Rightarrow> (exn + nat) \<times> 'g world" where
  "process_years env [] written w = (Inr written, w)"
| "process_years env (y # ys) written w =
     (case process_year env y w of
        (Inl e, w1) \<Rightarrow> (Inl e, w1)
      | (Inr b, w1) \<Rightarrow> process_years env ys (written + (if b then 1 else 0)) w1)"

definition main :: "'g env \<Rightarrow> int \<Rightarrow> int \<Rightarrow> 'g world \<Rightarrow> (exn + unit) \<times> 'g world" where
  "main env start stop w =
     (if start > stop then (Inl (SystemExit 1), print (MsgRangeError start stop) w)
      else
        (let years = [start..stop];
             w1 = print (MsgPhase1 (length years)) w
         in case discover_years env years [] w1 of
              (Inl e, w2) \<Rightarrow> (Inl e, w2)
            | (Inr needs_translation, w2) \<Rightarrow>
                (case prime_translation_cache env needs_translation (print MsgPhase2 w2) of
                   (Inl e, w3) \<Rightarrow> (Inl e, w3)
                 | (Inr u, w3) \<Rightarrow>
                     (let w4 = mkdir OutputDir (print MsgPhase3 w3)
                      in case process_years env years 0 w4 of
                           (Inl e, w5) \<Rightarrow> (Inl e, w5)
                         | (Inr written, w5) \<Rightarrow>
                             (Inr (), print (MsgDone written (length years)) w5)))))"

section \<open>Counting what is sent to the translation service\<close>

text \<open>How often a label occurs in the argument of one batched call, and of one single call.\<close>

fun in_batch :: "pystr \<Rightarrow> call \<Rightarrow> nat" where
  "in_batch l (Batch xs) = count_list xs l"
| "in_batch l (Single x) = 0"

fun in_single :: "pystr \<Rightarrow> call \<Rightarrow> nat" where
  "in_single l (Batch xs) = 0"
| "in_single l (Single x) = (if x = l then 1 else 0)"

definition batch_sends :: "pystr \<Rightarrow> call list \<Rightarrow> nat" where
  "batch_sends l cs = sum_list (map (in_batch l) cs)"

definition single_sends :: "pystr \<Rightarrow> call list \<Rightarrow> nat" where
  "single_sends l cs = sum_list (map (in_single l) cs)"

text \<open>How often a label is passed to the translation service in a log of calls.\<close>

definition times_sent :: "pystr \<Rightarrow> call list \<Rightarrow> nat" where
  "times_sent l cs = batch_sends l cs + single_sends l cs"

section \<open>The final labels as the specification words them\<close>

text \<open>
  Final Chinese label, from the specification: the tag-derived candidate if there is one;
  otherwise the cache entry of the English label; otherwise the English label itself.
\<close>

definition final_title :: "(pystr \<rightharpoonup> pystr) \<Rightarrow> pystr option \<Rightarrow> pystr \<Rightarrow> pystr" where
  "final_title c zh en =
     (case zh of
        Some s \<Rightarrow> if s \<noteq> [] then s else (case c en of None \<Rightarrow> en | Some t \<Rightarrow> t)
      | None \<Rightarrow> (case c en of None \<Rightarrow> en | Some t \<Rightarrow> t))"

text \<open>A feature whose tag data parses to the empty mapping and whose raw name is empty.\<close>

definition blank_feature :: "'g env \<Rightarrow> 'g gdf \<Rightarrow> 'g row \<Rightarrow> bool" where
  "blank_feature env g r \<longleftrightarrow> row_tags env g r = Inr (PDict []) \<and> row_name env g r = []"

section \<open>The log of calls, read against what the service answered\<close>

text \<open>The labels of the batched calls of a log, in the order they were sent.\<close>

fun batch_args :: "call list \<Rightarrow> pystr list" where
  "batch_args [] = []"
| "batch_args (Batch xs # cs) = xs @ batch_args cs"
| "batch_args (Single x # cs) = batch_args cs"

text \<open>
  Position \<open>i\<close> of the log is a batched call that holds the label \<open>l\<close>, and the service,
  having seen the calls before it, failed that call with an exception the program catches.
\<close>

definition failed_batch_at :: "'g env \<Rightarrow> call list \<Rightarrow> nat \<Rightarrow> pystr \<Rightarrow> bool" where
  "failed_batch_at env cs i l \<longleftrightarrow>
     i < length cs \<and>
     (\<exists>xs e. cs ! i = Batch xs \<and> l \<in> set xs \<and>
             translate_batch env (take i cs) xs = Inl e \<and> is_Exception e)"

text \<open>Every single call of the log comes after a failed batched call that held its label.\<close>

definition retries_justified :: "'g env \<Rightarrow> call list \<Rightarrow> bool" where
  "retries_justified env cs \<longleftrightarrow>
     (\<forall>j < length cs. \<forall>l. cs ! j = Single l \<longrightarrow> (\<exists>i < j. failed_batch_at env cs i l))"


section \<open>The labels to translate, as the specification words them\<close>

text \<open>
  The label a feature contributes in the discovery phase: its English label, when it has
  no tag-derived Chinese candidate and the English label is not empty.
\<close>

definition label_to_translate :: "'g env \<Rightarrow> 'g gdf \<Rightarrow> 'g row \<Rightarrow> pystr option" where
  "label_to_translate env g r =
     (case row_tags env g r of
        Inl e \<Rightarrow> None
      | Inr tags \<Rightarrow>
          (case get_title_zh tags (row_name env g r) of
             Inl e \<Rightarrow> None
           | Inr (Some zh) \<Rightarrow>
               if zh \<noteq> [] then None
               else (case get_title_en tags (row_name env g r) of
                       Inl e \<Rightarrow> None
                     | Inr en \<Rightarrow> if en \<noteq> [] then Some en else None)
           | Inr None \<Rightarrow>
               (case get_title_en tags (row_name env g r) of
                  Inl e \<Rightarrow> None
                | Inr en \<Rightarrow> if en \<noteq> [] then Some en else None)))"

text \<open>The labels of all the years asked for, in the order of the years and of their features.\<close>

definition pooled_labels :: "'g env \<Rightarrow> int list \<Rightarrow> pystr list" where
  "pooled_labels env years =
     concat (map (\<lambda>y. case files env y of
                         Some (Inr g) \<Rightarrow> List.map_filter (label_to_translate env g) (rows g)
                       | _ \<Rightarrow> []) years)"

section \<open>A small example run\<close>

text \<open>
  Two yearly files, 1900 and 1901 (none for 1899). Germany has no Chinese tag in either
  year; Japan's raw name is Chinese already; one feature of 1900 has an undecodable tag
  blob and no name; one of 1901 carries both \<open>name:zh\<close> and \<open>name:zh-Hant\<close>.
\<close>

definition ex_row :: "pystr \<Rightarrow> pyval \<Rightarrow> nat \<Rightarrow> nat row" where
  "ex_row n t g = \<lparr> props = [ustr ''name'' \<mapsto> PStr n, ustr ''tags'' \<mapsto> t], geometry = g \<rparr>"

definition ex_files :: "int \<Rightarrow> (exn + nat gdf) option" where
  "ex_files y =
     (if y = 1900 then
        Some (Inr \<lparr> columns = map ustr [''name'', ''tags'', ''geometry''],
               rows = [ex_row (ustr ''Germany'') (PDict []) 1,
                       ex_row [0x65E5, 0x672C] PNone 2,
                       ex_row [] (PStr (ustr ''{'')) 3] \<rparr>)
      else if y = 1901 then
        Some (Inr \<lparr> columns = map ustr [''name'', ''tags'', ''geometry''],
               rows = [ex_row (ustr ''Deutschland'')
                         (PDict [(ustr ''name:en'', PStr (ustr ''Germany''))]) 4,
                       ex_row (ustr ''Deutschland'')
                         (PDict [(ustr ''name:zh'', PStr [0x5FB7, 0x56FD]),
                                 (ustr ''name:zh-Hant'', PStr [0x5FB7, 0x570B])]) 5] \<rparr>)
      else None)"

text \<open>The example, with the translation service left open.\<close>

definition ex_env ::
  "(call list \<Rightarrow> pystr list \<Rightarrow> exn + pystr option list) \<Rightarrow>
   (call list \<Rightarrow> pystr \<Rightarrow> exn + pystr option) \<Rightarrow> nat env" where
  "ex_env tb t =
     \<lparr> files = ex_files,
       write_error = (\<lambda>y out. None),
       json_loads = (\<lambda>s. if s = ustr ''{}'' then Inr (PDict []) else Inl JSONDecodeError),
       py_repr = (\<lambda>v. ustr ''?''),
       translate_batch = tb,
       translate = t \<rparr>"

text \<open>A service that answers every call, one whose batches fail, and one that is down.\<close>

definition ex_env_up :: "nat env" where
  "ex_env_up = ex_env (\<lambda>h xs. Inr (map (\<lambda>x. Some (0x4E2D # x)) xs)) (\<lambda>h x. Inr (Some (0x4E2D # x)))"



section \<open>Properties of the tag parser and the name resolver\<close>

lemma str_valued_lookup:
  assumes "str_valued d"
  shows "map_of d k = None \<or> (\<exists>s. map_of d k = Some (PStr s))"
proof (cases "map_of d k")
  case None
  then show ?thesis by simp
next
  case (Some v)
  then have "(k, v) \<in> set d" by (rule map_of_SomeD)
  with assms have "case v of PStr s \<Rightarrow> True | _ \<Rightarrow> False"
    by (auto simp: str_valued_def list_all_iff)
  then show ?thesis using Some by (cases v) auto
qed

lemma tag_or_default:
  assumes "str_valued d" and "dict_get (PDict d) k = Inr v"
  shows "py_or v (PStr s) = PStr (if tag_value d k \<noteq> [] then tag_value d k else s)"
  using str_valued_lookup [OF assms(1), of k] assms(2)
  by (auto simp: py_or_def tag_value_def)

lemma dropWhile_hd: "dropWhile P xs \<noteq> [] \<Longrightarrow> \<not> P (hd (dropWhile P xs))"
  by (metis hd_dropWhile)

lemma trimmed_strip: "trimmed (strip s)"
proof (cases "strip s = []")
  case True
  then show ?thesis by (simp add: trimmed_def)
next
  case False
  define t where "t = dropWhile is_space s"
  define u where "u = dropWhile is_space (rev t)"
  have su: "strip s = rev u" by (simp add: strip_def t_def u_def)
  with False have une: "u \<noteq> []" by simp
  then have tne: "t \<noteq> []" by (auto simp: u_def)
  have "\<not> is_space (hd u)" using une unfolding u_def by (rule dropWhile_hd)
  then have l: "\<not> is_space (last (strip s))" using une by (simp add: su last_rev)
  obtain ws where ws: "rev t = ws @ u"
    unfolding u_def by (metis takeWhile_dropWhile_id)
  then have "t = rev u @ rev ws" by (metis rev_append rev_rev_ident)
  then have "hd t = hd (rev u)" using une by simp
  moreover have "\<not> is_space (hd t)" using tne unfolding t_def by (rule dropWhile_hd)
  ultimately have "\<not> is_space (hd (strip s))" by (simp add: su)
  with l show ?thesis by (simp add: trimmed_def)
qed

lemma get_title_en_refines:
  assumes "str_valued d"
  shows "get_title_en (PDict d) name = Inr (title_en_spec d name)"
proof -
  obtain v where v: "dict_get (PDict d) (ustr ''name:en'') = Inr v" by simp
  have "py_or (py_or v (PStr name)) (PStr []) =
        PStr (if tag_value d (ustr ''name:en'') \<noteq> [] then tag_value d (ustr ''name:en'')
            else if name \<noteq> [] then name else [])"
    using tag_or_default [OF assms v, of name] by (simp add: py_or_def)
  then show ?thesis
    using v by (simp add: get_title_en_def title_en_spec_def del: dict_get.simps)
qed

lemma get_title_zh_loop_refines:
  assumes "str_valued d"
  shows "get_title_zh_loop (PDict d) ks =
         Inr (List.find (\<lambda>v. v \<noteq> []) (map (\<lambda>k. strip (tag_value d k)) ks))"
proof (induction ks)
  case Nil
  then show ?case by simp
next
  case (Cons k ks)
  obtain v where v: "dict_get (PDict d) k = Inr v" by simp
  have "py_or v (PStr []) = PStr (tag_value d k)"
    using tag_or_default [OF assms v, of "[]"] by simp
  then show ?case using v Cons.IH by (simp del: dict_get.simps)
qed

lemma get_title_zh_refines:
  assumes "str_valued d"
  shows "get_title_zh (PDict d) name = Inr (title_zh_spec d name)"
proof -
  have "is_cjk = (\<lambda>c. (0x4E00 \<le> c \<and> c \<le> 0x9FFF) \<or> (0x3400 \<le> c \<and> c \<le> 0x4DBF))"
    by (rule ext) (simp add: is_cjk_def)
  then have cjk: "list_ex is_cjk name
      = list_ex (\<lambda>c. (0x4E00 \<le> c \<and> c \<le> 0x9FFF) \<or> (0x3400 \<le> c \<and> c \<le> 0x4DBF)) name"
    by simp
  have keys: "zh_keys = [ustr ''name:zh'', ustr ''name:zh-Hans'', ustr ''name:zh-Hant'',
                 ustr ''name:zh-CN'', ustr ''name:zh-TW'', ustr ''name:zh-SG'']"
    by (simp add: zh_keys_def)
  show ?thesis
    unfolding get_title_zh_def title_zh_spec_def has_chinese_def
      get_title_zh_loop_refines [OF assms] keys [symmetric]
    by (simp add: cjk split: option.splits)
qed

lemma title_zh_first:
  "strip (tag_value d (ustr ''name:zh'')) \<noteq> [] \<Longrightarrow>
   title_zh_spec d name = Some (strip (tag_value d (ustr ''name:zh'')))"
  by (simp add: title_zh_spec_def)

lemma find_Some_member: "List.find P xs = Some x \<Longrightarrow> P x \<and> x \<in> set xs"
  by (induction xs) (auto split: if_splits)

lemma title_zh_spec_Some:
  assumes "title_zh_spec d name = Some r"
  shows "r \<noteq> [] \<and> trimmed r"
proof (cases "List.find (\<lambda>v. v \<noteq> [])
             (map (\<lambda>k. strip (tag_value d k))
                [ustr ''name:zh'', ustr ''name:zh-Hans'', ustr ''name:zh-Hant'',
                 ustr ''name:zh-CN'', ustr ''name:zh-TW'', ustr ''name:zh-SG''])")
  case (Some v)
  with assms have "v = r" by (simp add: title_zh_spec_def)
  moreover from find_Some_member [OF Some] have "v \<noteq> [] \<and> (\<exists>k. v = strip (tag_value d k))"
    by auto
  ultimately show ?thesis using trimmed_strip by auto
next
  case None
  have "is_cjk = (\<lambda>c. (0x4E00 \<le> c \<and> c \<le> 0x9FFF) \<or> (0x3400 \<le> c \<and> c \<le> 0x4DBF))"
    by (rule ext) (simp add: is_cjk_def)
  with None assms have c: "list_ex is_cjk name" and r: "r = strip name"
    by (auto simp: title_zh_spec_def split: if_splits)
  from c obtain c0 where c0: "c0 \<in> set name" "is_cjk c0" by (auto simp: list_ex_iff)
  then have ns: "\<not> is_space c0" by (auto simp: is_cjk_def is_space_def)
  have "c0 \<in> set (strip name)"
  proof -
    from c0(1) ns have a: "c0 \<in> set (dropWhile is_space name)"
      by (metis (full_types) set_dropWhileD takeWhile_dropWhile_id Un_iff set_append set_takeWhileD)
    then have "c0 \<in> set (rev (dropWhile is_space name))" by simp
    with ns have "c0 \<in> set (dropWhile is_space (rev (dropWhile is_space name)))"
      by (metis (full_types) takeWhile_dropWhile_id Un_iff set_append set_takeWhileD)
    then show ?thesis by (simp add: strip_def)
  qed
  then have "strip name \<noteq> []" by auto
  with r trimmed_strip show ?thesis by simp
qed

text \<open>What \<open>strip\<close> returns is its argument without the whitespace around it.\<close>

lemma strip_trim_of: "trim_of (strip s) s"
proof -
  define t where "t = dropWhile is_space s"
  define u where "u = dropWhile is_space (rev t)"
  have su: "strip s = rev u" by (simp add: strip_def t_def u_def)
  have s: "s = takeWhile is_space s @ t" by (simp add: t_def)
  have "rev t = takeWhile is_space (rev t) @ u" by (simp add: u_def)
  then have "t = rev u @ rev (takeWhile is_space (rev t))"
    by (metis rev_append rev_rev_ident)
  with s have "s = takeWhile is_space s @ strip s @ rev (takeWhile is_space (rev t))"
    by (simp add: su)
  moreover have "blank (takeWhile is_space s)"
    by (auto simp: blank_def list_all_iff dest: set_takeWhileD)
  moreover have "blank (rev (takeWhile is_space (rev t)))"
    by (auto simp: blank_def list_all_iff dest: set_takeWhileD)
  ultimately show ?thesis unfolding trim_of_def using trimmed_strip by blast
qed

text \<open>
  Claim C6. On a tag mapping with string values, \<open>get_title_en\<close> never raises and returns
  the \<open>name:en\<close> value if that is non-empty, otherwise the raw name if non-empty, otherwise
  the empty string, in each case with the surrounding whitespace removed; the result has
  no whitespace at either end.
\<close>

theorem get_title_en_spec:
  assumes "str_valued d"
  shows "get_title_en (PDict d) name = Inr (title_en_spec d name) \<and> trimmed (title_en_spec d name)"
  using get_title_en_refines [OF assms] trimmed_strip by (simp add: title_en_spec_def)

theorem get_title_en_spec_witness:
  "str_valued [(ustr ''name:en'', PStr (ustr '' Germany ''))] \<and>
   get_title_en (PDict [(ustr ''name:en'', PStr (ustr '' Germany ''))]) (ustr ''Deutschland'')
     = Inr (ustr ''Germany'') \<and>
   trimmed (ustr ''Germany'')"
proof -
  have h: "str_valued [(ustr ''name:en'', PStr (ustr '' Germany ''))]"
    by (simp add: str_valued_def)
  have e: "title_en_spec [(ustr ''name:en'', PStr (ustr '' Germany ''))] (ustr ''Deutschland'')
           = ustr ''Germany''"
    by (simp add: title_en_spec_def tag_value_def ustr_def strip_def is_space_def)
  show ?thesis
    using h get_title_en_spec [OF h, of "ustr ''Deutschland''"] by (simp add: e)
qed

text \<open>
  Claim C2. On a tag mapping with string values, \<open>get_title_zh\<close> returns the first
  non-empty trimmed value among the keys \<open>name:zh\<close>, \<open>name:zh-Hans\<close>, \<open>name:zh-Hant\<close>,
  \<open>name:zh-CN\<close>, \<open>name:zh-TW\<close>, \<open>name:zh-SG\<close> in that order; if there is none and the raw
  name holds a code point in U+4E00..U+9FFF or U+3400..U+4DBF, the trimmed raw name;
  otherwise \<open>None\<close>. A candidate is never empty and has no whitespace at either end, and
  trimming a string removes the whitespace around it and nothing else. In particular a
  \<open>name:zh\<close> value that is non-empty once trimmed is chosen whatever the other keys hold.
\<close>

theorem get_title_zh_spec:
  assumes "str_valued d"
  shows "get_title_zh (PDict d) name = Inr (title_zh_spec d name) \<and>
         (\<forall>r. get_title_zh (PDict d) name = Inr (Some r) \<longrightarrow> r \<noteq> [] \<and> trimmed r) \<and>
         trim_of (strip s) s \<and>
         (strip (tag_value d (ustr ''name:zh'')) \<noteq> [] \<longrightarrow>
            get_title_zh (PDict d) name = Inr (Some (strip (tag_value d (ustr ''name:zh'')))))"
  using get_title_zh_refines [OF assms] title_zh_first title_zh_spec_Some strip_trim_of
  by simp

theorem get_title_zh_spec_witness:
  "str_valued [(ustr ''name:zh'', PStr [0x5FB7, 0x56FD]), (ustr ''name:zh-Hant'', PStr [0x5FB7, 0x570B])] \<and>
   strip (tag_value [(ustr ''name:zh'', PStr [0x5FB7, 0x56FD]), (ustr ''name:zh-Hant'', PStr [0x5FB7, 0x570B])]
            (ustr ''name:zh'')) \<noteq> [] \<and>
   get_title_zh (PDict [(ustr ''name:zh'', PStr [0x5FB7, 0x56FD]), (ustr ''name:zh-Hant'', PStr [0x5FB7, 0x570B])])
     (ustr ''Germany'') = Inr (Some [0x5FB7, 0x56FD]) \<and>
   trimmed [0x5FB7, 0x56FD]"
proof -
  let ?d = "[(ustr ''name:zh'', PStr [0x5FB7, 0x56FD]), (ustr ''name:zh-Hant'', PStr [0x5FB7, 0x570B])]"
  have h: "str_valued ?d" by (simp add: str_valued_def)
  have v: "strip (tag_value ?d (ustr ''name:zh'')) = [0x5FB7, 0x56FD]"
    by (simp add: tag_value_def strip_def is_space_def)
  note t = get_title_zh_spec [OF h, of "ustr ''Germany''" "[]"]
  have g: "get_title_zh (PDict ?d) (ustr ''Germany'') = Inr (Some [0x5FB7, 0x56FD])"
    using t unfolding v by blast
  with t have "trimmed [0x5FB7, 0x56FD]" by blast
  with h v g show ?thesis by simp
qed

lemma parse_tags_dict: "parse_tags loads (PDict d) = Inr (PDict d)"
  by (simp add: parse_tags_def)

lemma parse_tags_decode_error:
  "loads s = Inl e \<Longrightarrow> is_ValueError e \<Longrightarrow> parse_tags loads (PStr s) = Inr (PDict [])"
  by (simp add: parse_tags_def)

lemma parse_tags_other_shape:
  "(\<forall>d. raw \<noteq> PDict d) \<Longrightarrow> (\<forall>s. raw \<noteq> PStr s) \<Longrightarrow> parse_tags loads raw = Inr (PDict [])"
  by (cases raw) (simp_all add: parse_tags_def)

text \<open>
  Claim C5 does not hold of the code: a string that decodes to a JSON value other than an
  object (an array here) is returned as decoded, so the result is not a mapping, and the
  first \<open>tags.get\<close> of the name resolver then raises \<open>AttributeError\<close>.
\<close>

theorem parse_tags_returns_non_mapping:
  assumes "loads s = Inr (PList xs)"
  shows "parse_tags loads (PStr s) = Inr (PList xs) \<and>
         get_title_en (PList xs) name = Inl AttributeError"
  using assms by (simp add: parse_tags_def get_title_en_def)

theorem parse_tags_returns_non_mapping_witness:
  "(\<lambda>s. if s = ustr ''[1]'' then Inr (PList [PInt 1]) else Inl JSONDecodeError) (ustr ''[1]'')
     = Inr (PList [PInt 1]) \<and>
   parse_tags (\<lambda>s. if s = ustr ''[1]'' then Inr (PList [PInt 1]) else Inl JSONDecodeError)
     (PStr (ustr ''[1]'')) = Inr (PList [PInt 1]) \<and>
   get_title_en (PList [PInt 1]) (ustr ''Germany'') = Inl AttributeError"
proof -
  let ?loads = "\<lambda>s. if s = ustr ''[1]'' then Inr (PList [PInt 1]) else Inl JSONDecodeError"
  have h: "?loads (ustr ''[1]'') = Inr (PList [PInt 1])" by simp
  show ?thesis
    using parse_tags_returns_non_mapping [of ?loads "ustr ''[1]''" "[PInt 1]" "ustr ''Germany''", OF h]
    by simp
qed

section \<open>The translation cache\<close>

lemma prime_loop_done: "\<not> i < length unique \<Longrightarrow> prime_loop env unique i w = (Inr (), w)"
  by (simp add: prime_loop.simps)

lemma prime_loop_step:
  "i < length unique \<Longrightarrow> prime_loop env unique i w =
        (let chunk = take BATCH (drop i unique);
             reply = translate_batch env (calls w) chunk;
             w1 = log_call (Batch chunk) w
         in case reply of
              Inr results \<Rightarrow> prime_loop env unique (i + BATCH) (store_batch (zip chunk results) w1)
            | Inl exc \<Rightarrow>
                if is_Exception exc
                then (case translate_each env chunk (print (MsgBatchFailed exc) w1) of
                        (Inl e, w2) \<Rightarrow> (Inl e, w2)
                      | (Inr u, w2) \<Rightarrow> prime_loop env unique (i + BATCH) w2)
                else (Inl exc, w1))"
  by (subst prime_loop.simps) simp

text \<open>The five ways one round of the loop can go.\<close>

lemma prime_loop_cases:
  obtains
    (finished) "\<not> i < length unique" "prime_loop env unique i w = (Inr (), w)"
  | (batch_ok) rs where "i < length unique"
      "translate_batch env (calls w) (take BATCH (drop i unique)) = Inr rs"
      "prime_loop env unique i w =
         prime_loop env unique (i + BATCH)
           (store_batch (zip (take BATCH (drop i unique)) rs)
              (log_call (Batch (take BATCH (drop i unique))) w))"
  | (batch_abort) exc where "i < length unique"
      "translate_batch env (calls w) (take BATCH (drop i unique)) = Inl exc" "\<not> is_Exception exc"
      "prime_loop env unique i w =
         (Inl exc, log_call (Batch (take BATCH (drop i unique))) w)"
  | (retry_abort) exc e w2 where "i < length unique"
      "translate_batch env (calls w) (take BATCH (drop i unique)) = Inl exc" "is_Exception exc"
      "translate_each env (take BATCH (drop i unique))
         (print (MsgBatchFailed exc) (log_call (Batch (take BATCH (drop i unique))) w))
       = (Inl e, w2)"
      "prime_loop env unique i w = (Inl e, w2)"
  | (retry_ok) exc w2 where "i < length unique"
      "translate_batch env (calls w) (take BATCH (drop i unique)) = Inl exc" "is_Exception exc"
      "translate_each env (take BATCH (drop i unique))
         (print (MsgBatchFailed exc) (log_call (Batch (take BATCH (drop i unique))) w))
       = (Inr (), w2)"
      "prime_loop env unique i w = prime_loop env unique (i + BATCH) w2"
proof (cases "i < length unique")
  case False
  then show ?thesis using finished by (simp add: prime_loop_done)
next
  case True
  let ?chunk = "take BATCH (drop i unique)"
  let ?w1 = "log_call (Batch ?chunk) w"
  show ?thesis
  proof (cases "translate_batch env (calls w) ?chunk")
    case (Inr rs)
    then show ?thesis
      using True batch_ok [of rs] by (simp add: prime_loop_step [OF True] Let_def)
  next
    case (Inl exc)
    show ?thesis
    proof (cases "is_Exception exc")
      case False
      then show ?thesis
        using True Inl batch_abort [of exc] by (simp add: prime_loop_step [OF True] Let_def)
    next
      case exc: True
      obtain r w2 where te: "translate_each env ?chunk (print (MsgBatchFailed exc) ?w1) = (r, w2)"
        by (cases "translate_each env ?chunk (print (MsgBatchFailed exc) ?w1)")
      show ?thesis
      proof (cases r)
        case (Inl e)
        then show ?thesis
          using True \<open>translate_batch env (calls w) ?chunk = Inl exc\<close> exc te retry_abort [of exc e w2]
          by (simp add: prime_loop_step [OF True] Let_def)
      next
        case (Inr u)
        then show ?thesis
          using True \<open>translate_batch env (calls w) ?chunk = Inl exc\<close> exc te retry_ok [of exc w2]
          by (simp add: prime_loop_step [OF True] Let_def)
      qed
    qed
  qed
qed

text \<open>Induction along the loop: the next round starts \<open>BATCH\<close> further on, in any world.\<close>

lemma prime_loop_rounds:
  assumes step: "\<And>i w. (\<And>w'. i < length unique \<Longrightarrow> P (i + BATCH) w') \<Longrightarrow> P i w"
  shows "P i w"
proof (induction "length unique - i" arbitrary: i w rule: less_induct)
  case less
  show ?case
  proof (rule step)
    fix w'
    assume "i < length unique"
    then have "length unique - (i + BATCH) < length unique - i"
      by (simp add: BATCH_def)
    then show "P (i + BATCH) w'" by (rule less)
  qed
qed


subsection \<open>What stays as it was\<close>

lemma print_simps [simp]:
  "cache (print m w) = cache w" "calls (print m w) = calls w" "reads (print m w) = reads w"
  "dirs (print m w) = dirs w" "shp (print m w) = shp w" "stdout (print m w) = stdout w @ [m]"
  by (simp_all add: print_def)

lemma log_call_simps [simp]:
  "cache (log_call c w) = cache w" "calls (log_call c w) = calls w @ [c]"
  "reads (log_call c w) = reads w" "dirs (log_call c w) = dirs w" "shp (log_call c w) = shp w"
  "stdout (log_call c w) = stdout w"
  by (simp_all add: log_call_def)

lemma cache_put_simps [simp]:
  "cache (cache_put k v w) = (cache w)(k \<mapsto> v)" "calls (cache_put k v w) = calls w"
  "reads (cache_put k v w) = reads w" "dirs (cache_put k v w) = dirs w"
  "shp (cache_put k v w) = shp w" "stdout (cache_put k v w) = stdout w"
  by (simp_all add: cache_put_def)

lemma mkdir_simps [simp]:
  "cache (mkdir d w) = cache w" "calls (mkdir d w) = calls w" "reads (mkdir d w) = reads w"
  "dirs (mkdir d w) = dirs w @ [d]" "shp (mkdir d w) = shp w" "stdout (mkdir d w) = stdout w"
  by (simp_all add: mkdir_def)

lemma read_file_simps [simp]:
  "cache (read_file y w) = cache w" "calls (read_file y w) = calls w"
  "reads (read_file y w) = reads w @ [y]" "dirs (read_file y w) = dirs w"
  "shp (read_file y w) = shp w" "stdout (read_file y w) = stdout w"
  by (simp_all add: read_file_def)

lemma to_file_simps [simp]:
  "cache (to_file y g w) = cache w" "calls (to_file y g w) = calls w"
  "reads (to_file y g w) = reads w" "dirs (to_file y g w) = dirs w"
  "shp (to_file y g w) = (shp w)(y \<mapsto> g)" "stdout (to_file y g w) = stdout w"
  by (simp_all add: to_file_def)

lemma store_batch_frame [simp]:
  "calls (store_batch ps w) = calls w" "reads (store_batch ps w) = reads w"
  "dirs (store_batch ps w) = dirs w" "shp (store_batch ps w) = shp w"
  "stdout (store_batch ps w) = stdout w"
  by (induction ps w rule: store_batch.induct) simp_all

text \<open>The three ways one step of the one-by-one retry can go.\<close>

lemma translate_each_cases:
  obtains
    (translated) r where "translate env (calls w) src = Inr r"
      "translate_each env (src # rest) w =
         translate_each env rest (cache_put src (tgt_or r src) (log_call (Single src) w))"
  | (kept) e2 where "translate env (calls w) src = Inl e2" "is_Exception e2"
      "translate_each env (src # rest) w =
         translate_each env rest
           (cache_put src src (print (MsgCouldNot src e2) (log_call (Single src) w)))"
  | (abort) e2 where "translate env (calls w) src = Inl e2" "\<not> is_Exception e2"
      "translate_each env (src # rest) w = (Inl e2, log_call (Single src) w)"
proof (cases "translate env (calls w) src")
  case (Inr r)
  then show ?thesis using translated [of r] by (simp add: Let_def)
next
  case (Inl e2)
  then show ?thesis
    using kept [of e2] abort [of e2] by (cases "is_Exception e2") (simp_all add: Let_def)
qed

declare translate_each.simps(2) [simp del]

lemma translate_each_frame:
  "reads (snd (translate_each env chunk w)) = reads w \<and>
   dirs (snd (translate_each env chunk w)) = dirs w \<and>
   shp (snd (translate_each env chunk w)) = shp w"
proof (induction chunk arbitrary: w)
  case Nil
  then show ?case by simp
next
  case (Cons src rest)
  show ?case
    by (rule translate_each_cases [where env = env and w = w and src = src and rest = rest])
       (simp_all add: Cons.IH)
qed

lemma prime_loop_frame:
  "reads (snd (prime_loop env unique i w)) = reads w \<and>
   dirs (snd (prime_loop env unique i w)) = dirs w \<and>
   shp (snd (prime_loop env unique i w)) = shp w"
proof (induction i w rule: prime_loop_rounds [where unique = unique])
  case (1 i w)
  let ?chunk = "take BATCH (drop i unique)"
  show ?case
  proof (cases env unique i w rule: prime_loop_cases)
    case finished
    then show ?thesis by simp
  next
    case (batch_ok rs)
    then show ?thesis using "1" [OF batch_ok(1)] by simp
  next
    case (batch_abort exc)
    then show ?thesis by simp
  next
    case (retry_abort exc e w2)
    then show ?thesis
      using translate_each_frame [of env ?chunk "print (MsgBatchFailed exc) (log_call (Batch ?chunk) w)"]
      by simp
  next
    case (retry_ok exc w2)
    then show ?thesis
      using "1" [OF retry_ok(1), of w2]
        translate_each_frame [of env ?chunk "print (MsgBatchFailed exc) (log_call (Batch ?chunk) w)"]
      by simp
  qed
qed

subsection \<open>The list of labels to translate\<close>

lemma set_fromkeys: "set (fromkeys seen xs) = set seen \<union> set xs"
  by (induction seen xs rule: fromkeys.induct) auto

lemma distinct_fromkeys: "distinct seen \<Longrightarrow> distinct (fromkeys seen xs)"
  by (induction seen xs rule: fromkeys.induct) auto

lemma count_list_le_1: "distinct xs \<Longrightarrow> count_list xs l \<le> 1"
  by (induction xs) auto

lemma count_list_0: "l \<notin> set xs \<Longrightarrow> count_list xs l = 0"
  by (induction xs) auto

text \<open>The three ways \<open>prime_translation_cache\<close> can go.\<close>

lemma prime_translation_cache_cases:
  obtains
    (no_labels) "fromkeys [] (filter (\<lambda>n. n \<noteq> [] \<and> cache w n = None) names) = []"
      "prime_translation_cache env names w = (Inr (), print MsgAllFound w)"
  | (failed) e w2 where
      "prime_loop env (fromkeys [] (filter (\<lambda>n. n \<noteq> [] \<and> cache w n = None) names)) 0
         (print (MsgTranslating (length (fromkeys [] (filter (\<lambda>n. n \<noteq> [] \<and> cache w n = None) names)))) w)
       = (Inl e, w2)"
      "prime_translation_cache env names w = (Inl e, w2)"
  | (complete) w2 where
      "prime_loop env (fromkeys [] (filter (\<lambda>n. n \<noteq> [] \<and> cache w n = None) names)) 0
         (print (MsgTranslating (length (fromkeys [] (filter (\<lambda>n. n \<noteq> [] \<and> cache w n = None) names)))) w)
       = (Inr (), w2)"
      "prime_translation_cache env names w = (Inr (), print MsgComplete w2)"
proof -
  let ?unique = "fromkeys [] (filter (\<lambda>n. n \<noteq> [] \<and> cache w n = None) names)"
  let ?w1 = "print (MsgTranslating (length ?unique)) w"
  show ?thesis
  proof (cases "?unique = []")
    case True
    then show ?thesis using no_labels by (simp add: prime_translation_cache_def Let_def)
  next
    case False
    obtain r w2 where pl: "prime_loop env ?unique 0 ?w1 = (r, w2)"
      by (cases "prime_loop env ?unique 0 ?w1")
    show ?thesis
    proof (cases r)
      case (Inl e)
      then show ?thesis
        using False pl failed [of e w2] by (simp add: prime_translation_cache_def Let_def)
    next
      case (Inr u)
      then show ?thesis
        using False pl complete [of w2] by (simp add: prime_translation_cache_def Let_def)
    qed
  qed
qed

lemma prime_translation_cache_frame:
  "reads (snd (prime_translation_cache env names w)) = reads w \<and>
   dirs (snd (prime_translation_cache env names w)) = dirs w \<and>
   shp (snd (prime_translation_cache env names w)) = shp w"
proof -
  let ?unique = "fromkeys [] (filter (\<lambda>n. n \<noteq> [] \<and> cache w n = None) names)"
  let ?w1 = "print (MsgTranslating (length ?unique)) w"
  note pl = prime_loop_frame [of env ?unique 0 ?w1]
  show ?thesis
  proof (rule prime_translation_cache_cases [where w = w and names = names and env = env])
    assume "prime_translation_cache env names w = (Inr (), print MsgAllFound w)"
    then show ?thesis by simp
  next
    fix e w2
    assume "prime_loop env ?unique 0 ?w1 = (Inl e, w2)"
       and "prime_translation_cache env names w = (Inl e, w2)"
    then show ?thesis using pl by simp
  next
    fix w2
    assume "prime_loop env ?unique 0 ?w1 = (Inr (), w2)"
       and "prime_translation_cache env names w = (Inr (), print MsgComplete w2)"
    then show ?thesis using pl by simp
  qed
qed

subsection \<open>The calls made\<close>

lemma batch_sends_append [simp]: "batch_sends l (cs @ ds) = batch_sends l cs + batch_sends l ds"
  by (simp add: batch_sends_def)

lemma single_sends_append [simp]: "single_sends l (cs @ ds) = single_sends l cs + single_sends l ds"
  by (simp add: single_sends_def)

lemma sends_one [simp]:
  "batch_sends l [Single x] = 0" "single_sends l [Single x] = (if x = l then 1 else 0)"
  "batch_sends l [Batch xs] = count_list xs l" "single_sends l [Batch xs] = 0"
  by (simp_all add: batch_sends_def single_sends_def)

lemma translate_each_sends:
  "batch_sends l (calls (snd (translate_each env chunk w))) = batch_sends l (calls w) \<and>
   single_sends l (calls (snd (translate_each env chunk w)))
     \<le> single_sends l (calls w) + count_list chunk l"
proof (induction chunk arbitrary: w)
  case Nil
  then show ?case by simp
next
  case (Cons src rest)
  show ?case
  proof (rule translate_each_cases [where env = env and w = w and src = src and rest = rest])
    fix r
    assume "translate_each env (src # rest) w =
         translate_each env rest (cache_put src (tgt_or r src) (log_call (Single src) w))"
    then show ?thesis
      using Cons.IH [of "cache_put src (tgt_or r src) (log_call (Single src) w)"] by auto
  next
    fix e2
    assume "translate_each env (src # rest) w =
         translate_each env rest (cache_put src src (print (MsgCouldNot src e2) (log_call (Single src) w)))"
    then show ?thesis
      using Cons.IH [of "cache_put src src (print (MsgCouldNot src e2) (log_call (Single src) w))"]
      by auto
  next
    fix e2
    assume "translate_each env (src # rest) w = (Inl e2, log_call (Single src) w)"
    then show ?thesis by simp
  qed
qed

lemma count_list_chunk:
  "count_list (take n (drop i xs)) l + count_list (drop (i + n) xs) l = count_list (drop i xs) l"
proof -
  have "drop i xs = take n (drop i xs) @ drop (i + n) xs"
    by (metis append_take_drop_id drop_drop add.commute)
  then have "count_list (drop i xs) l = count_list (take n (drop i xs) @ drop (i + n) xs) l"
    by simp
  then show ?thesis by (simp only: count_list_append)
qed

text \<open>
  A label goes into batches no more often than it stands in the rest of the list, and is
  retried singly no more often than it went into a batch.
\<close>

lemma prime_loop_sends:
  "batch_sends l (calls (snd (prime_loop env unique i w)))
     \<le> batch_sends l (calls w) + count_list (drop i unique) l \<and>
   single_sends l (calls (snd (prime_loop env unique i w))) + batch_sends l (calls w)
     \<le> single_sends l (calls w) + batch_sends l (calls (snd (prime_loop env unique i w)))"
proof (induction i w rule: prime_loop_rounds [where unique = unique])
  case (1 i w)
  let ?chunk = "take BATCH (drop i unique)"
  let ?w1 = "log_call (Batch ?chunk) w"
  note cnt = count_list_chunk [of BATCH i unique l]
  show ?case
  proof (cases env unique i w rule: prime_loop_cases)
    case finished
    then show ?thesis by simp
  next
    case (batch_ok rs)
    then show ?thesis
      using "1" [OF batch_ok(1), of "store_batch (zip ?chunk rs) ?w1"] cnt by simp
  next
    case (batch_abort exc)
    then show ?thesis using cnt by simp
  next
    case (retry_abort exc e w2)
    then show ?thesis
      using translate_each_sends [of l env ?chunk "print (MsgBatchFailed exc) ?w1"] cnt by simp
  next
    case (retry_ok exc w2)
    then show ?thesis
      using "1" [OF retry_ok(1), of w2]
        translate_each_sends [of l env ?chunk "print (MsgBatchFailed exc) ?w1"] cnt
      by simp
  qed
qed

lemma prime_loop_no_retry:
  assumes "\<And>h xs. \<exists>rs. translate_batch env h xs = Inr rs"
  shows "single_sends l (calls (snd (prime_loop env unique i w))) = single_sends l (calls w)"
proof (induction i w rule: prime_loop_rounds [where unique = unique])
  case (1 i w)
  let ?chunk = "take BATCH (drop i unique)"
  let ?w1 = "log_call (Batch ?chunk) w"
  obtain rs where rs: "translate_batch env (calls w) ?chunk = Inr rs"
    using assms by blast
  show ?case
  proof (cases env unique i w rule: prime_loop_cases)
    case finished
    then show ?thesis by simp
  next
    case (batch_ok rs)
    then show ?thesis
      using "1" [OF batch_ok(1), of "store_batch (zip ?chunk rs) ?w1"] by simp
  next
    case (batch_abort exc)
    then show ?thesis using rs by simp
  next
    case (retry_abort exc e w2)
    then show ?thesis using rs by simp
  next
    case (retry_ok exc w2)
    then show ?thesis using rs by simp
  qed
qed

lemma prime_translation_cache_calls:
  "calls (snd (prime_translation_cache env names w)) = calls w \<or>
   calls (snd (prime_translation_cache env names w)) =
     calls (snd (prime_loop env (fromkeys [] (filter (\<lambda>n. n \<noteq> [] \<and> cache w n = None) names)) 0
       (print (MsgTranslating (length (fromkeys [] (filter (\<lambda>n. n \<noteq> [] \<and> cache w n = None) names)))) w)))"
  by (rule prime_translation_cache_cases [where w = w and names = names and env = env]) simp_all

lemma prime_translation_cache_sends:
  shows "batch_sends l (calls (snd (prime_translation_cache env names w)))
           \<le> batch_sends l (calls w) + (if l \<noteq> [] \<and> cache w l = None \<and> l \<in> set names then 1 else 0)"
    and "single_sends l (calls (snd (prime_translation_cache env names w))) + batch_sends l (calls w)
           \<le> single_sends l (calls w) + batch_sends l (calls (snd (prime_translation_cache env names w)))"
    and "(\<And>h xs. \<exists>rs. translate_batch env h xs = Inr rs) \<Longrightarrow>
         single_sends l (calls (snd (prime_translation_cache env names w))) = single_sends l (calls w)"
proof -
  let ?unique = "fromkeys [] (filter (\<lambda>n. n \<noteq> [] \<and> cache w n = None) names)"
  let ?w1 = "print (MsgTranslating (length ?unique)) w"
  let ?w' = "snd (prime_translation_cache env names w)"
  have su: "set ?unique = {n \<in> set names. n \<noteq> [] \<and> cache w n = None}"
    by (auto simp: set_fromkeys)
  have "distinct ?unique" by (simp add: distinct_fromkeys)
  then have "count_list ?unique l \<le> 1" by (rule count_list_le_1)
  moreover have "\<not> (l \<noteq> [] \<and> cache w l = None \<and> l \<in> set names) \<Longrightarrow> count_list ?unique l = 0"
    by (rule count_list_0) (use su in auto)
  ultimately have cu: "count_list ?unique l
      \<le> (if l \<noteq> [] \<and> cache w l = None \<and> l \<in> set names then 1 else 0)"
    by (simp split: if_splits)
  note calls' = prime_translation_cache_calls [of env names w]
  note pl = prime_loop_sends [of l env ?unique 0 ?w1]
  show "batch_sends l (calls ?w')
           \<le> batch_sends l (calls w) + (if l \<noteq> [] \<and> cache w l = None \<and> l \<in> set names then 1 else 0)"
    using calls' pl cu by (auto split: if_splits)
  show "single_sends l (calls ?w') + batch_sends l (calls w)
           \<le> single_sends l (calls w) + batch_sends l (calls ?w')"
    using calls' pl by auto
  show "single_sends l (calls ?w') = single_sends l (calls w)"
    if "\<And>h xs. \<exists>rs. translate_batch env h xs = Inr rs"
    using calls' prime_loop_no_retry [of env l ?unique 0 ?w1, OF that] by auto
qed

subsection \<open>The keys of the cache\<close>









subsection \<open>A service that fails every call\<close>



subsection \<open>The log of calls\<close>

text \<open>The log of calls only grows.\<close>

lemma translate_each_calls_grow:
  "\<exists>new. calls (snd (translate_each env chunk w)) = calls w @ new"
proof (induction chunk arbitrary: w)
  case Nil
  then show ?case by simp
next
  case (Cons src rest)
  show ?case
  proof (rule translate_each_cases [where env = env and w = w and src = src and rest = rest])
    fix r
    let ?w2 = "cache_put src (tgt_or r src) (log_call (Single src) w)"
    assume eq: "translate_each env (src # rest) w = translate_each env rest ?w2"
    from Cons.IH [of ?w2] obtain new where "calls (snd (translate_each env rest ?w2)) = calls ?w2 @ new"
      by blast
    then have "calls (snd (translate_each env (src # rest) w)) = calls w @ (Single src # new)"
      unfolding eq by simp
    then show ?thesis by blast
  next
    fix e2
    let ?w2 = "cache_put src src (print (MsgCouldNot src e2) (log_call (Single src) w))"
    assume eq: "translate_each env (src # rest) w = translate_each env rest ?w2"
    from Cons.IH [of ?w2] obtain new where "calls (snd (translate_each env rest ?w2)) = calls ?w2 @ new"
      by blast
    then have "calls (snd (translate_each env (src # rest) w)) = calls w @ (Single src # new)"
      unfolding eq by simp
    then show ?thesis by blast
  next
    fix e2
    assume "translate_each env (src # rest) w = (Inl e2, log_call (Single src) w)"
    then show ?thesis by simp
  qed
qed

lemma prime_loop_calls_grow:
  "\<exists>new. calls (snd (prime_loop env unique i w)) = calls w @ new"
proof (induction i w rule: prime_loop_rounds [where unique = unique])
  case (1 i w)
  let ?chunk = "take BATCH (drop i unique)"
  let ?w1 = "log_call (Batch ?chunk) w"
  have next_round: "\<exists>new. calls (snd (prime_loop env unique (i + BATCH) w2)) = calls w @ new"
    if "i < length unique" and "calls w2 = calls w @ mid" for w2 mid
  proof -
    from "1" [OF that(1), of w2] obtain new where
      "calls (snd (prime_loop env unique (i + BATCH) w2)) = calls w2 @ new" by blast
    then have "calls (snd (prime_loop env unique (i + BATCH) w2)) = calls w @ (mid @ new)"
      using that(2) by simp
    then show ?thesis by blast
  qed
  show ?case
  proof (cases env unique i w rule: prime_loop_cases)
    case finished
    then show ?thesis by simp
  next
    case (batch_ok rs)
    have "calls (store_batch (zip ?chunk rs) ?w1) = calls w @ [Batch ?chunk]" by simp
    from next_round [OF batch_ok(1) this] show ?thesis unfolding batch_ok(3) .
  next
    case (batch_abort exc)
    then show ?thesis by simp
  next
    case (retry_abort exc e w2)
    obtain new where "calls (snd (translate_each env ?chunk (print (MsgBatchFailed exc) ?w1)))
        = calls (print (MsgBatchFailed exc) ?w1) @ new"
      using translate_each_calls_grow by blast
    then have "calls w2 = calls w @ (Batch ?chunk # new)" using retry_abort(4) by simp
    then show ?thesis unfolding retry_abort(5) by simp
  next
    case (retry_ok exc w2)
    obtain new where "calls (snd (translate_each env ?chunk (print (MsgBatchFailed exc) ?w1)))
        = calls (print (MsgBatchFailed exc) ?w1) @ new"
      using translate_each_calls_grow by blast
    then have "calls w2 = calls w @ (Batch ?chunk # new)" using retry_ok(4) by simp
    from next_round [OF retry_ok(1) this] show ?thesis unfolding retry_ok(5) .
  qed
qed

lemma prime_translation_cache_calls_grow:
  "\<exists>new. calls (snd (prime_translation_cache env names w)) = calls w @ new"
proof -
  let ?unique = "fromkeys [] (filter (\<lambda>n. n \<noteq> [] \<and> cache w n = None) names)"
  let ?w1 = "print (MsgTranslating (length ?unique)) w"
  from prime_translation_cache_calls [of env names w] show ?thesis
  proof
    assume "calls (snd (prime_translation_cache env names w)) = calls w"
    then show ?thesis by simp
  next
    assume "calls (snd (prime_translation_cache env names w)) = calls (snd (prime_loop env ?unique 0 ?w1))"
    moreover obtain new where "calls (snd (prime_loop env ?unique 0 ?w1)) = calls ?w1 @ new"
      using prime_loop_calls_grow by blast
    ultimately show ?thesis by simp
  qed
qed





subsection \<open>The batches are consecutive pieces of the list\<close>

lemma batch_args_append [simp]: "batch_args (cs @ ds) = batch_args cs @ batch_args ds"
  by (induction cs rule: batch_args.induct) simp_all

lemma translate_each_batch_args:
  "batch_args (calls (snd (translate_each env chunk w))) = batch_args (calls w)"
proof (induction chunk arbitrary: w)
  case Nil
  then show ?case by simp
next
  case (Cons src rest)
  show ?case
  proof (rule translate_each_cases [where env = env and w = w and src = src and rest = rest])
    fix r
    let ?w2 = "cache_put src (tgt_or r src) (log_call (Single src) w)"
    assume eq: "translate_each env (src # rest) w = translate_each env rest ?w2"
    show ?thesis unfolding eq using Cons.IH [of ?w2] by simp
  next
    fix e2
    let ?w2 = "cache_put src src (print (MsgCouldNot src e2) (log_call (Single src) w))"
    assume eq: "translate_each env (src # rest) w = translate_each env rest ?w2"
    show ?thesis unfolding eq using Cons.IH [of ?w2] by simp
  next
    fix e2
    assume "translate_each env (src # rest) w = (Inl e2, log_call (Single src) w)"
    then show ?thesis by simp
  qed
qed

lemma take_chunk: "take (n + k) (drop i xs) = take n (drop i xs) @ take k (drop (i + n) xs)"
  by (simp add: take_add add.commute [of n i])

lemma prime_loop_batch_args:
  "\<exists>k. batch_args (calls (snd (prime_loop env unique i w)))
          = batch_args (calls w) @ take k (drop i unique) \<and>
        (fst (prime_loop env unique i w) = Inr () \<longrightarrow> take k (drop i unique) = drop i unique)"
proof (induction i w rule: prime_loop_rounds [where unique = unique])
  case (1 i w)
  let ?chunk = "take BATCH (drop i unique)"
  let ?w1 = "log_call (Batch ?chunk) w"
  have whole: "?chunk @ drop (i + BATCH) unique = drop i unique"
    by (metis append_take_drop_id drop_drop add.commute)
  have next_round: "\<exists>k. batch_args (calls (snd (prime_loop env unique (i + BATCH) w2)))
          = batch_args (calls w) @ take k (drop i unique) \<and>
        (fst (prime_loop env unique (i + BATCH) w2) = Inr () \<longrightarrow> take k (drop i unique) = drop i unique)"
    if lt: "i < length unique" and b: "batch_args (calls w2) = batch_args (calls w) @ ?chunk" for w2
  proof -
    from "1" [OF lt, of w2] obtain k where
      k: "batch_args (calls (snd (prime_loop env unique (i + BATCH) w2)))
            = batch_args (calls w2) @ take k (drop (i + BATCH) unique)"
      and r: "fst (prime_loop env unique (i + BATCH) w2) = Inr () \<longrightarrow>
            take k (drop (i + BATCH) unique) = drop (i + BATCH) unique"
      by blast
    have t: "take (BATCH + k) (drop i unique) = ?chunk @ take k (drop (i + BATCH) unique)"
      by (rule take_chunk)
    have "batch_args (calls (snd (prime_loop env unique (i + BATCH) w2)))
            = batch_args (calls w) @ take (BATCH + k) (drop i unique)"
      unfolding k b t by simp
    moreover have "take (BATCH + k) (drop i unique) = drop i unique"
      if "fst (prime_loop env unique (i + BATCH) w2) = Inr ()"
      unfolding t using r that whole by simp
    ultimately show ?thesis by blast
  qed
  have one: "batch_args (calls w2) = batch_args (calls w) @ take BATCH (drop i unique) \<Longrightarrow>
      \<exists>k. batch_args (calls w2) = batch_args (calls w) @ take k (drop i unique)" for w2
    by blast
  show ?case
  proof (cases env unique i w rule: prime_loop_cases)
    case finished
    then have "batch_args (calls (snd (prime_loop env unique i w)))
          = batch_args (calls w) @ take 0 (drop i unique)"
      and "take 0 (drop i unique) = drop i unique"
      by simp_all
    then show ?thesis by blast
  next
    case (batch_ok rs)
    have "batch_args (calls (store_batch (zip ?chunk rs) ?w1)) = batch_args (calls w) @ ?chunk"
      by simp
    from next_round [OF batch_ok(1) this] show ?thesis unfolding batch_ok(3) .
  next
    case (batch_abort exc)
    have "batch_args (calls ?w1) = batch_args (calls w) @ take BATCH (drop i unique)" by simp
    from one [OF this] show ?thesis unfolding batch_abort(4) by simp
  next
    case (retry_abort exc e w2)
    have "batch_args (calls w2) = batch_args (calls w) @ take BATCH (drop i unique)"
      using translate_each_batch_args [of env ?chunk "print (MsgBatchFailed exc) ?w1"]
        retry_abort(4) by simp
    from one [OF this] show ?thesis unfolding retry_abort(5) by simp
  next
    case (retry_ok exc w2)
    have "batch_args (calls w2) = batch_args (calls w) @ ?chunk"
      using translate_each_batch_args [of env ?chunk "print (MsgBatchFailed exc) ?w1"]
        retry_ok(4) by simp
    from next_round [OF retry_ok(1) this] show ?thesis unfolding retry_ok(5) .
  qed
qed

text \<open>\<open>dict.fromkeys\<close> keeps the first occurrence of each element, in order.\<close>

lemma remdups_drop_earlier: "x \<in> set bs \<Longrightarrow> remdups (as @ x # bs) = remdups (as @ bs)"
  by (induction as) auto

lemma fromkeys_first_occurrences:
  "distinct seen \<Longrightarrow> fromkeys seen xs = rev (remdups (rev (seen @ xs)))"
proof (induction seen xs rule: fromkeys.induct)
  case (1 seen)
  then show ?case by (simp add: distinct_remdups_id)
next
  case (2 seen x xs)
  show ?case
  proof (cases "x \<in> set seen")
    case True
    then have "remdups (rev xs @ x # rev seen) = remdups (rev xs @ rev seen)"
      by (intro remdups_drop_earlier) simp
    with True "2.IH" "2.prems" show ?thesis by simp
  next
    case False
    with "2.IH" "2.prems" show ?thesis by simp
  qed
qed

subsection \<open>Reading the log against the replies\<close>

text \<open>What a log says about a call stays true when the log grows.\<close>

lemma failed_batch_at_append:
  "failed_batch_at env cs i l \<Longrightarrow> failed_batch_at env (cs @ ds) i l"
  by (auto simp: failed_batch_at_def nth_append)



text \<open>The one-by-one retry sends the labels of its chunk singly, in order, and nothing else.\<close>

lemma translate_each_singles:
  "\<exists>k. calls (snd (translate_each env chunk w)) = calls w @ map Single (take k chunk) \<and>
        (fst (translate_each env chunk w) = Inr () \<longrightarrow> take k chunk = chunk)"
proof (induction chunk arbitrary: w)
  case Nil
  then show ?case by simp
next
  case (Cons src rest)
  have next_label: "\<exists>k. calls (snd (translate_each env rest w2)) = calls w @ map Single (take k (src # rest)) \<and>
        (fst (translate_each env rest w2) = Inr () \<longrightarrow> take k (src # rest) = src # rest)"
    if c: "calls w2 = calls w @ [Single src]" for w2
  proof -
    from Cons.IH [of w2] obtain k where
      k: "calls (snd (translate_each env rest w2)) = calls w2 @ map Single (take k rest)"
      and r: "fst (translate_each env rest w2) = Inr () \<longrightarrow> take k rest = rest"
      by blast
    have "calls (snd (translate_each env rest w2)) = calls w @ map Single (take (Suc k) (src # rest))"
      unfolding k c by simp
    moreover have "fst (translate_each env rest w2) = Inr () \<longrightarrow> take (Suc k) (src # rest) = src # rest"
      using r by simp
    ultimately show ?thesis by blast
  qed
  show ?case
  proof (rule translate_each_cases [where env = env and w = w and src = src and rest = rest])
    fix r
    let ?w2 = "cache_put src (tgt_or r src) (log_call (Single src) w)"
    assume eq: "translate_each env (src # rest) w = translate_each env rest ?w2"
    have "calls ?w2 = calls w @ [Single src]" by simp
    from next_label [OF this] show ?thesis unfolding eq .
  next
    fix e2
    let ?w2 = "cache_put src src (print (MsgCouldNot src e2) (log_call (Single src) w))"
    assume eq: "translate_each env (src # rest) w = translate_each env rest ?w2"
    have "calls ?w2 = calls w @ [Single src]" by simp
    from next_label [OF this] show ?thesis unfolding eq .
  next
    fix e2
    assume eq: "translate_each env (src # rest) w = (Inl e2, log_call (Single src) w)"
    have "calls (snd (translate_each env (src # rest) w)) = calls w @ map Single (take 1 (src # rest))"
      unfolding eq by simp
    moreover have "fst (translate_each env (src # rest) w) \<noteq> Inr ()" unfolding eq by simp
    ultimately show ?thesis by blast
  qed
qed

text \<open>A round of the loop keeps the retries justified.\<close>

lemma retries_justified_batch:
  assumes "retries_justified env cs"
  shows "retries_justified env (cs @ [Batch xs])"
  unfolding retries_justified_def
proof (intro allI impI)
  fix j l
  assume j: "j < length (cs @ [Batch xs])" and s: "(cs @ [Batch xs]) ! j = Single l"
  have "j < length cs"
  proof (rule ccontr)
    assume "\<not> j < length cs"
    with j have "j = length cs" by simp
    with s show False by simp
  qed
  with s have "cs ! j = Single l" by (simp add: nth_append)
  with assms \<open>j < length cs\<close> obtain i where "i < j" "failed_batch_at env cs i l"
    unfolding retries_justified_def by blast
  then show "\<exists>i<j. failed_batch_at env (cs @ [Batch xs]) i l"
    using failed_batch_at_append by blast
qed

lemma retries_justified_retry:
  assumes J: "retries_justified env cs"
    and f: "translate_batch env cs xs = Inl e" "is_Exception e"
    and ys: "set ys \<subseteq> set xs"
  shows "retries_justified env (cs @ Batch xs # map Single ys)"
  unfolding retries_justified_def
proof (intro allI impI)
  fix j l
  let ?cs = "cs @ Batch xs # map Single ys"
  assume j: "j < length ?cs" and s: "?cs ! j = Single l"
  show "\<exists>i<j. failed_batch_at env ?cs i l"
  proof (cases "j < length cs")
    case True
    with s have "cs ! j = Single l" by (simp add: nth_append)
    with J True obtain i where "i < j" "failed_batch_at env cs i l"
      unfolding retries_justified_def by blast
    then show ?thesis using failed_batch_at_append by blast
  next
    case False
    with s have ne: "j \<noteq> length cs" by (auto simp: nth_append)
    with False have gt: "length cs < j" by simp
    then obtain m where m: "j = length cs + Suc m" by (metis less_imp_Suc_add add_Suc_right)
    with j have ml: "m < length ys" by simp
    from s m ml have "l = ys ! m" by (simp add: nth_append)
    with ml ys have "l \<in> set xs" by auto
    with f have "failed_batch_at env ?cs (length cs) l"
      unfolding failed_batch_at_def by simp
    with gt show ?thesis by blast
  qed
qed

lemma prime_loop_retries_justified:
  "retries_justified env (calls w) \<Longrightarrow>
     retries_justified env (calls (snd (prime_loop env unique i w)))"
proof (induction i w rule: prime_loop_rounds [where unique = unique])
  case (1 i w)
  let ?chunk = "take BATCH (drop i unique)"
  let ?w1 = "log_call (Batch ?chunk) w"
  have retried: "retries_justified env (calls w2)"
    if f: "translate_batch env (calls w) ?chunk = Inl exc" "is_Exception exc"
      and t: "translate_each env ?chunk (print (MsgBatchFailed exc) ?w1) = (r, w2)" for exc r w2
  proof -
    from translate_each_singles [of env ?chunk "print (MsgBatchFailed exc) ?w1"] t
    obtain k where "calls w2 = calls w @ Batch ?chunk # map Single (take k ?chunk)"
      by auto
    moreover have "set (take k ?chunk) \<subseteq> set ?chunk" by (rule set_take_subset)
    ultimately show ?thesis using retries_justified_retry [OF "1.prems" f] by simp
  qed
  show ?case
  proof (cases env unique i w rule: prime_loop_cases)
    case finished
    with "1.prems" show ?thesis by simp
  next
    case (batch_ok rs)
    have "retries_justified env (calls (store_batch (zip ?chunk rs) ?w1))"
      using retries_justified_batch [OF "1.prems"] by simp
    from "1.IH" [OF batch_ok(1) this] show ?thesis unfolding batch_ok(3) .
  next
    case (batch_abort exc)
    show ?thesis unfolding batch_abort(4) using retries_justified_batch [OF "1.prems"] by simp
  next
    case (retry_abort exc e w2)
    from retried [OF retry_abort(2,3,4)] show ?thesis unfolding retry_abort(5) by simp
  next
    case (retry_ok exc w2)
    from "1.IH" [OF retry_ok(1) retried [OF retry_ok(2,3,4)]] show ?thesis unfolding retry_ok(5) .
  qed
qed



subsection \<open>What the cache holds afterwards\<close>








end
